theory Spec2Isabelle
  imports Main "HOL-Library.Sublist"
begin

section \<open>Text: Python \<open>str\<close> as a list of code points\<close>

text \<open>
  A Python \<open>str\<close> is a sequence of Unicode code points, and \<open>len\<close>, slicing, \<open>rfind\<close>
  and the 200 and 100 character windows of \<open>email_generator.py\<close> count code points.
  A text is therefore a list of code points (natural numbers); \<open>ustr\<close> reads an ASCII
  literal of the source as such a list.
\<close>

type_synonym str = "nat list"

definition ustr :: "string \<Rightarrow> str" where
  "ustr s = map of_char s"

text \<open>
  \<open>str.isspace\<close> of CPython: the code points that \<open>str.strip()\<close> removes from both
  ends when it is called without an argument.
\<close>

definition isspace :: "nat \<Rightarrow> bool" where
  "isspace c \<longleftrightarrow>
     (9 \<le> c \<and> c \<le> 13) \<or> (28 \<le> c \<and> c \<le> 32) \<or> c = 133 \<or> c = 160 \<or> c = 5760 \<or>
     (8192 \<le> c \<and> c \<le> 8202) \<or> c = 8232 \<or> c = 8233 \<or> c = 8239 \<or> c = 8287 \<or> c = 12288"

definition strip :: "str \<Rightarrow> str" where
  "strip s = rev (dropWhile isspace (rev (dropWhile isspace s)))"

text \<open>
  \<open>str.lower()\<close> maps every code point through the lowercase mapping of the Unicode
  database. The program searches the lowered text for ASCII phrases only, so the model
  keeps what such a search can see: the code points whose image contains an ASCII
  character, and the length of every image. \<open>A\<close> to \<open>Z\<close> go to \<open>a\<close> to \<open>z\<close>; U+212A
  (KELVIN SIGN) goes to \<open>k\<close>; U+0130 (LATIN CAPITAL LETTER I WITH DOT ABOVE) goes to \<open>i\<close>
  followed by U+0307, and is the only code point whose image has two code points. The
  capital letters of Latin-1 are tabulated as well. Any other code point has an image
  of one code point outside ASCII; \<open>lower_cp\<close> returns the code point itself for it.
\<close>

definition dotted_I :: nat where
  "dotted_I = 304"

definition lower_cp :: "nat \<Rightarrow> str" where
  "lower_cp c =
     (if 65 \<le> c \<and> c \<le> 90 then [c + 32]
      else if 192 \<le> c \<and> c \<le> 222 \<and> c \<noteq> 215 then [c + 32]
      else if c = dotted_I then [105, 775]
      else if c = 8490 then [107]
      else [c])"

definition lower :: "str \<Rightarrow> str" where
  "lower s = concat (map lower_cp s)"

text \<open>
  \<open>s.rfind(sub)\<close>: the highest index at which \<open>sub\<close> occurs in \<open>s\<close>, or \<open>-1\<close>.
  \<open>rfind_at s sub n\<close> tries the start indices \<open>n\<close>, \<open>n - 1\<close>, ..., \<open>0\<close> in this order.
\<close>

fun rfind_at :: "str \<Rightarrow> str \<Rightarrow> nat \<Rightarrow> int" where
  "rfind_at s sub 0 = (if prefix sub s then 0 else - 1)"
| "rfind_at s sub (Suc n) =
     (if prefix sub (drop (Suc n) s) then int (Suc n) else rfind_at s sub n)"

definition rfind :: "str \<Rightarrow> str \<Rightarrow> int" where
  "rfind s sub =
     (if length s < length sub then - 1 else rfind_at s sub (length s - length sub))"

text \<open>\<open>s.split(sep)[0]\<close>: the text before the first occurrence of \<open>sep\<close>, all of
  \<open>s\<close> when \<open>sep\<close> does not occur.\<close>

fun split_first :: "str \<Rightarrow> str \<Rightarrow> str" where
  "split_first [] sep = []"
| "split_first (c # s) sep = (if prefix sep (c # s) then [] else c # split_first s sep)"

text \<open>\<open>s.rsplit(sep, 1)\<close>: at most one split, at the last occurrence of \<open>sep\<close>.\<close>

definition rsplit1 :: "str \<Rightarrow> str \<Rightarrow> str list" where
  "rsplit1 s sep =
     (let i = rfind s sep
      in if i = - 1 then [s] else [take (nat i) s, drop (nat i + length sep) s])"

text \<open>\<open>s[-n:]\<close>: the last \<open>n\<close> code points of \<open>s\<close>, all of \<open>s\<close> when it is shorter.\<close>

definition last_chars :: "nat \<Rightarrow> str \<Rightarrow> str" where
  "last_chars n s = drop (length s - n) s"

section \<open>The closing block\<close>

definition MANDATORY_CLOSING_LINE :: str where
  "MANDATORY_CLOSING_LINE =
     ustr ''I am available to join immediately, as I have completed all my academic coursework.''"

definition newline :: str where
  "newline = [10]"

definition CLOSING_BLOCK :: str where
  "CLOSING_BLOCK =
     newline @ newline
     @ MANDATORY_CLOSING_LINE @ newline @ newline
     @ ustr ''Best regards,'' @ newline
     @ ustr ''Abhinav Prasad'' @ newline
     @ ustr ''Email: abhinavprasad2004ap@gmail.com'' @ newline
     @ ustr ''Phone: 8989625663'' @ newline
     @ ustr ''LinkedIn: https://www.linkedin.com/in/abhinav-prasad-0a894b251/'' @ newline
     @ ustr ''GitHub: https://github.com/Abhii242004''"

section \<open>Post-processing of the model's text\<close>

definition stop_phrase :: str where
  "stop_phrase = ustr ''---END-OF-BODY---''"

definition common_closings :: "str list" where
  "common_closings =
     [ustr ''Best regards,'', ustr ''Sincerely,'', ustr ''Thank you,'',
      ustr ''I look forward to hearing from you.'']"

text \<open>Step 1: cut at the stop phrase, if the text contains it.\<close>

definition primary_cut :: "str \<Rightarrow> str" where
  "primary_cut email_content =
     (if sublist stop_phrase email_content
      then strip (split_first email_content stop_phrase)
      else email_content)"

text \<open>
  Step 2: the \<open>for closing in common_closings\<close> loop. The index is looked up in the
  lowered text and applied to the text itself; \<open>break\<close> ends the loop at the first cut.
\<close>

fun closing_loop :: "str list \<Rightarrow> str \<Rightarrow> str" where
  "closing_loop [] email_content = email_content"
| "closing_loop (closing # rest) email_content =
     (let idx = rfind (lower email_content) (lower closing)
      in if idx \<noteq> - 1 \<and> int (length email_content) - idx < 200
         then strip (take (nat idx) email_content)
         else closing_loop rest email_content)"

definition secondary_cut :: "str \<Rightarrow> str" where
  "secondary_cut email_content = closing_loop common_closings email_content"

text \<open>Step 3: the contact block heuristic.\<close>

definition contact_cut :: "str \<Rightarrow> str" where
  "contact_cut email_content =
     (if sublist (ustr ''@'') (last_chars 100 email_content)
      then (let parts = rsplit1 email_content (newline @ newline)
            in if length parts > 1
                  \<and> (sublist (ustr ''@'') (parts ! 1) \<or> sublist (ustr ''+'') (parts ! 1))
               then strip (parts ! 0)
               else email_content)
      else email_content)"

definition sanitize :: "str \<Rightarrow> str" where
  "sanitize email_content = contact_cut (secondary_cut (primary_cut email_content))"

text \<open>Steps 3 and 4 of the source's numbering: the separator, then the closing block.\<close>

definition post_process :: "str \<Rightarrow> str" where
  "post_process email_content = (sanitize email_content @ newline @ newline) @ CLOSING_BLOCK"

section \<open>The HTTP exchange\<close>

text \<open>
  What \<open>response.json()\<close> can return. The program only tests a number for truth, so
  a number is kept as an integer (a float is true or false like the integer of the same
  sign). An object keeps its members in the order of the document; a key that occurs
  twice has the value of its last occurrence, as in \<open>json.loads\<close>.
\<close>

datatype json = JNull | JBool bool | JNum int | JStr str | JArr "json list"
  | JObj "(str \<times> json) list"

text \<open>
  One attempt either fails inside \<open>requests.post\<close> (no connection, time out, ...), or
  gets a reply with a status code and a body, the body being a JSON document
  (\<open>Some\<close>) or not (\<open>None\<close>).
\<close>

datatype response = PostRaised | Reply nat "json option"

datatype exn = HTTPError nat | RequestException | JSONDecodeError | ValueError
  | AttributeError | IndexError | KeyError | TypeError

text \<open>\<open>d.get(key, default)\<close>; a value that is not a dict has no \<open>get\<close>.\<close>

definition py_get :: "json \<Rightarrow> str \<Rightarrow> json \<Rightarrow> exn + json" where
  "py_get d key dflt =
     (case d of
        JObj kvs \<Rightarrow> (case map_of (rev kvs) key of None \<Rightarrow> Inr dflt | Some v \<Rightarrow> Inr v)
      | _ \<Rightarrow> Inl AttributeError)"

text \<open>\<open>x[0]\<close>: the keys of a dict read from JSON are strings, so \<open>0\<close> is never one.\<close>

fun item0 :: "json \<Rightarrow> exn + json" where
  "item0 (JArr []) = Inl IndexError"
| "item0 (JArr (x # xs)) = Inr x"
| "item0 (JStr []) = Inl IndexError"
| "item0 (JStr (c # s)) = Inr (JStr [c])"
| "item0 (JObj kvs) = Inl KeyError"
| "item0 JNull = Inl TypeError"
| "item0 (JBool b) = Inl TypeError"
| "item0 (JNum n) = Inl TypeError"

text \<open>The truth value of \<open>if not email_content\<close>.\<close>

fun truthy :: "json \<Rightarrow> bool" where
  "truthy JNull = False"
| "truthy (JBool b) = b"
| "truthy (JNum n) = (n \<noteq> 0)"
| "truthy (JStr s) = (s \<noteq> [])"
| "truthy (JArr xs) = (xs \<noteq> [])"
| "truthy (JObj kvs) = (kvs \<noteq> [])"

text \<open>\<open>result.get('choices', [{}])[0].get('message', {}).get('content')\<close>\<close>

definition extract_content :: "json \<Rightarrow> exn + json" where
  "extract_content result =
     (case py_get result (ustr ''choices'') (JArr [JObj []]) of
        Inl e \<Rightarrow> Inl e
      | Inr choices \<Rightarrow>
          (case item0 choices of
             Inl e \<Rightarrow> Inl e
           | Inr choice \<Rightarrow>
               (case py_get choice (ustr ''message'') (JObj []) of
                  Inl e \<Rightarrow> Inl e
                | Inr message \<Rightarrow> py_get message (ustr ''content'') JNull)))"

text \<open>
  The post-processing of a content that is true but not a string: \<open>stop_phrase in x\<close>
  raises \<open>TypeError\<close> on a boolean or a number, and a list or a dict has neither
  \<open>split\<close> nor \<open>lower\<close>.
\<close>

fun process_content :: "json \<Rightarrow> exn + str" where
  "process_content (JStr s) = Inr (post_process s)"
| "process_content (JArr xs) = Inl AttributeError"
| "process_content (JObj kvs) = Inl AttributeError"
| "process_content JNull = Inl TypeError"
| "process_content (JBool b) = Inl TypeError"
| "process_content (JNum n) = Inl TypeError"

text \<open>The body of the \<open>try\<close>: \<open>raise_for_status\<close> raises on a status from 400 to 599.\<close>

fun attempt :: "response \<Rightarrow> exn + str" where
  "attempt PostRaised = Inl RequestException"
| "attempt (Reply status_code body) =
     (if 400 \<le> status_code \<and> status_code < 600 then Inl (HTTPError status_code)
      else (case body of
              None \<Rightarrow> Inl JSONDecodeError
            | Some result \<Rightarrow>
                (case extract_content result of
                   Inl e \<Rightarrow> Inl e
                 | Inr email_content \<Rightarrow>
                     if \<not> truthy email_content then Inl ValueError
                     else process_content email_content)))"

section \<open>The retry loop\<close>

text \<open>
  What a call of \<open>generate_application_email\<close> leaves behind: the value returned
  (\<open>None\<close> is Python's \<open>None\<close>), the arguments of the calls of \<open>time.sleep\<close> in order,
  and the number of calls of \<open>requests.post\<close>.
\<close>

record outcome =
  result :: "str option"
  slept :: "nat list"
  posts :: nat

definition max_retries :: nat where
  "max_retries = 4"

text \<open>
  \<open>for i in range(max_retries)\<close>, with \<open>last_delay\<close> threaded through; \<open>net i\<close> is what
  the \<open>i\<close>-th call of \<open>requests.post\<close> meets.
\<close>

function retry_loop :: "(nat \<Rightarrow> response) \<Rightarrow> nat \<Rightarrow> nat \<Rightarrow> nat list \<Rightarrow> outcome" where
  "retry_loop net i last_delay sl =
     (if i < max_retries
      then (case attempt (net i) of
              Inr email \<Rightarrow> \<lparr>result = Some email, slept = sl, posts = Suc i\<rparr>
            | Inl e \<Rightarrow>
                (case e of
                   HTTPError status_code \<Rightarrow>
                     if status_code = 429 \<and> i < max_retries - 1
                     then retry_loop net (Suc i) (last_delay * 2) (sl @ [last_delay])
                     else \<lparr>result = None, slept = sl, posts = Suc i\<rparr>
                 | _ \<Rightarrow> \<lparr>result = None, slept = sl, posts = Suc i\<rparr>))
      else \<lparr>result = None, slept = sl, posts = i\<rparr>)"
  by pat_completeness auto
termination
  by (relation "measure (\<lambda>(net, i, last_delay, sl). max_retries - i)") auto

text \<open>
  The request carries the two texts in \<open>user_query\<close>; the server is a function from
  the query and the number of the attempt to what that attempt meets.
\<close>

definition user_query :: "str \<Rightarrow> str \<Rightarrow> str" where
  "user_query job_description resume_data =
     ustr ''Generate the application email. Target Job Description:'' @ newline @ newline
     @ ustr ''---'' @ newline @ job_description @ newline @ ustr ''---'' @ newline @ newline
     @ ustr ''Candidate Resume:'' @ newline @ newline
     @ ustr ''---'' @ newline @ resume_data @ newline @ ustr ''---''"

type_synonym server = "str \<Rightarrow> nat \<Rightarrow> response"

definition generate_application_email :: "server \<Rightarrow> str \<Rightarrow> str \<Rightarrow> outcome" where
  "generate_application_email srv job_description resume_data =
     retry_loop (srv (user_query job_description resume_data)) 0 1 []"

section \<open>The command line\<close>

text \<open>
  \<open>argv\<close> is \<open>sys.argv\<close> (the script's name first). The file system maps a path to
  the text \<open>read\<close> returns, or to \<open>None\<close> where \<open>open\<close> raises \<open>FileNotFoundError\<close>;
  other failures of \<open>open\<close> and \<open>read\<close> are not modelled.
\<close>

record run =
  stdout :: "str list"
  exit_status :: nat
  http_calls :: nat

definition banner :: str where
  "banner = replicate 50 61"

definition main :: "str list \<Rightarrow> (str \<rightharpoonup> str) \<Rightarrow> server \<Rightarrow> run" where
  "main argv fs srv =
     (if length argv < 3
      then \<lparr>stdout = [ustr ''Usage: python email_generator.py <JOB_DESCRIPTION_FILE> <RESUME_FILE>'',
                       ustr ''Example: python email_generator.py jd.txt resume.txt''],
            exit_status = 1, http_calls = 0\<rparr>
      else
        let jd_file_path = argv ! 1; resume_file_path = argv ! 2
        in (case fs jd_file_path of
              None \<Rightarrow>
                \<lparr>stdout = [ustr ''Error: Job description file not found at '' @ jd_file_path],
                 exit_status = 1, http_calls = 0\<rparr>
            | Some jd_text \<Rightarrow>
                (case fs resume_file_path of
                   None \<Rightarrow>
                     \<lparr>stdout = [ustr ''Error: Resume file not found at '' @ resume_file_path],
                      exit_status = 1, http_calls = 0\<rparr>
                 | Some resume_text \<Rightarrow>
                     let job_description = strip jd_text; resume_data = strip resume_text
                     in if job_description = [] \<or> resume_data = []
                        then \<lparr>stdout = [newline @ ustr ''Both job description and resume content must be provided. Exiting.''],
                              exit_status = 1, http_calls = 0\<rparr>
                        else
                          let start = [newline @ ustr ''--- Starting Personalized Email Generation ---'',
                                       ustr ''Connecting to llama-3.3-70b-versatile API and drafting email...''];
                              out = generate_application_email srv job_description resume_data
                          in (case result out of
                                Some email_draft \<Rightarrow>
                                  if email_draft \<noteq> []
                                  then \<lparr>stdout = start @ [newline @ banner,
                                          ustr ''PERSONALIZED APPLICATION EMAIL DRAFT'', banner,
                                          email_draft, newline @ banner],
                                        exit_status = 0, http_calls = posts out\<rparr>
                                  else \<lparr>stdout = start @ [newline @ ustr ''Could not generate the email draft. Check the console for error details.''],
                                        exit_status = 0, http_calls = posts out\<rparr>
                              | None \<Rightarrow>
                                  \<lparr>stdout = start @ [newline @ ustr ''Could not generate the email draft. Check the console for error details.''],
                                   exit_status = 0, http_calls = posts out\<rparr>))))"

section \<open>A well-formed reply\<close>

text \<open>The shape the program expects: \<open>{choices: [{message: {content: string}}]}\<close>.\<close>

definition chat_completion :: "str \<Rightarrow> json" where
  "chat_completion content =
     JObj [(ustr ''choices'',
            JArr [JObj [(ustr ''message'', JObj [(ustr ''content'', JStr content)])]])]"

section \<open>Rate limits\<close>

text \<open>A reply with status 429, the one failure the loop retries.\<close>

fun rate_limited :: "response \<Rightarrow> bool" where
  "rate_limited PostRaised = False"
| "rate_limited (Reply status_code body) = (status_code = 429)"

text \<open>The delays slept after \<open>k\<close> rate limits in a row: 1, 2, 4, ...\<close>

definition backoff :: "nat \<Rightarrow> nat list" where
  "backoff k = map (\<lambda>j. 2 ^ j) [0..<k]"

section \<open>Occurrences\<close>

text \<open>
  \<open>sub\<close> occurs in \<open>s\<close> at index \<open>i\<close>: \<open>s[i : i + len(sub)] == sub\<close>. The program's
  \<open>in\<close>, \<open>split\<close>, \<open>rfind\<close> and \<open>rsplit\<close> are stated against it.
\<close>

definition occurs_at :: "str \<Rightarrow> str \<Rightarrow> nat \<Rightarrow> bool" where
  "occurs_at s sub i \<longleftrightarrow> i \<le> length s \<and> prefix sub (drop i s)"

text \<open>
  \<open>phrase\<close> occurs in \<open>s\<close> at index \<open>i\<close> when case is ignored: the piece of \<open>s\<close> that
  starts at \<open>i\<close> and is as long as the phrase has the phrase's lowercase form.
\<close>

definition ci_occurs_at :: "str \<Rightarrow> str \<Rightarrow> nat \<Rightarrow> bool" where
  "ci_occurs_at s phrase i \<longleftrightarrow>
     i + length phrase \<le> length s \<and> lower (take (length phrase) (drop i s)) = lower phrase"

section \<open>Facts about the string operations\<close>


lemma occurs_at_sublist: "occurs_at s sub i \<Longrightarrow> sublist sub s"
  unfolding occurs_at_def sublist_def prefix_def
  by (metis append_take_drop_id)

lemma sublist_occurs_at: "sublist sub s \<Longrightarrow> \<exists>i. occurs_at s sub i"
proof -
  assume "sublist sub s"
  then obtain ps ss where "s = ps @ sub @ ss" by (auto simp: sublist_def)
  then have "occurs_at s sub (length ps)" by (simp add: occurs_at_def)
  then show ?thesis ..
qed

lemma occurs_at_append: "occurs_at (a @ sub @ b) sub (length a)"
  by (simp add: occurs_at_def)

lemma prefix_take_iff: "prefix xs ys \<longleftrightarrow> length xs \<le> length ys \<and> take (length xs) ys = xs"
proof
  assume "prefix xs ys"
  then show "length xs \<le> length ys \<and> take (length xs) ys = xs"
    by (auto simp: prefix_def)
next
  assume "length xs \<le> length ys \<and> take (length xs) ys = xs"
  then have "ys = xs @ drop (length xs) ys" by (metis append_take_drop_id)
  then show "prefix xs ys" by (metis prefixI)
qed

lemma occurs_at_take:
  "occurs_at s sub i \<longleftrightarrow> i + length sub \<le> length s \<and> take (length sub) (drop i s) = sub"
  unfolding occurs_at_def prefix_take_iff by auto

lemma sublist_strip: "sublist (strip s) s"
proof -
  have "sublist (rev (dropWhile isspace (rev (dropWhile isspace s)))) (rev (rev (dropWhile isspace s)))"
    unfolding sublist_rev by (rule sublist_dropWhile)
  then have "sublist (strip s) (dropWhile isspace s)" by (simp add: strip_def)
  then show ?thesis using sublist_dropWhile sublist_order.order_trans by blast
qed

lemma rfind_at_ge: "- 1 \<le> rfind_at s sub n"
  by (induction n) auto

lemma rfind_at_none: "rfind_at s sub n = - 1 \<longleftrightarrow> (\<forall>i\<le>n. \<not> prefix sub (drop i s))"
proof (induction n)
  case 0
  then show ?case by simp
next
  case (Suc n)
  then show ?case by (auto simp: le_Suc_eq)
qed

lemma rfind_at_found:
  "rfind_at s sub n = int i \<longleftrightarrow>
     i \<le> n \<and> prefix sub (drop i s) \<and> (\<forall>j. i < j \<and> j \<le> n \<longrightarrow> \<not> prefix sub (drop j s))"
proof (induction n)
  case 0
  then show ?case by auto
next
  case (Suc n)
  show ?case
  proof (cases "prefix sub (drop (Suc n) s)")
    case True
    then have "rfind_at s sub (Suc n) = int (Suc n)" by simp
    moreover have "i \<le> Suc n \<and> prefix sub (drop i s)
                     \<and> (\<forall>j. i < j \<and> j \<le> Suc n \<longrightarrow> \<not> prefix sub (drop j s))
                   \<longleftrightarrow> i = Suc n"
    proof (cases "i = Suc n")
      case True
      with \<open>prefix sub (drop (Suc n) s)\<close> show ?thesis by auto
    next
      case False
      have "\<not> (i \<le> Suc n \<and> (\<forall>j. i < j \<and> j \<le> Suc n \<longrightarrow> \<not> prefix sub (drop j s)))"
      proof
        assume h: "i \<le> Suc n \<and> (\<forall>j. i < j \<and> j \<le> Suc n \<longrightarrow> \<not> prefix sub (drop j s))"
        with False have "i < Suc n" by simp
        with h have "\<not> prefix sub (drop (Suc n) s)" by blast
        with \<open>prefix sub (drop (Suc n) s)\<close> show False by simp
      qed
      with False show ?thesis by blast
    qed
    ultimately show ?thesis by auto
  next
    case False
    with Suc show ?thesis by (auto simp: le_Suc_eq)
  qed
qed

lemma occurs_at_window: "occurs_at s sub i \<longleftrightarrow> length sub \<le> length s \<and> i \<le> length s - length sub \<and> prefix sub (drop i s)"
  unfolding occurs_at_def by (auto dest: prefix_length_le)

lemma rfind_none: "rfind s sub = - 1 \<longleftrightarrow> \<not> sublist sub s"
proof -
  have "rfind s sub = - 1 \<longleftrightarrow> (\<forall>i. \<not> occurs_at s sub i)"
    unfolding rfind_def by (auto simp: rfind_at_none occurs_at_window)
  then show ?thesis by (metis occurs_at_sublist sublist_occurs_at)
qed

lemma rfind_found:
  "rfind s sub = int i \<longleftrightarrow> occurs_at s sub i \<and> (\<forall>j>i. \<not> occurs_at s sub j)"
  unfolding rfind_def by (auto simp: rfind_at_found occurs_at_window)

lemma rfind_cases:
  obtains "rfind s sub = - 1" "\<not> sublist sub s"
  | i where "rfind s sub = int i" "occurs_at s sub i" "\<forall>j>i. \<not> occurs_at s sub j"
proof (cases "rfind s sub = - 1")
  case True
  then show ?thesis using that(1) by (simp add: rfind_none)
next
  case False
  have "- 1 \<le> rfind s sub" unfolding rfind_def by (simp add: rfind_at_ge)
  with False have "0 \<le> rfind s sub" by simp
  then obtain i where i: "rfind s sub = int i" using nonneg_int_cases by blast
  then have "occurs_at s sub i" "\<forall>j>i. \<not> occurs_at s sub j" by (simp_all add: rfind_found)
  with i show ?thesis by (rule that(2))
qed

lemma split_first_prefix: "prefix (split_first s sep) s"
  by (induction s) auto

lemma split_first_none: "\<not> sublist sep s \<Longrightarrow> split_first s sep = s"
  by (induction s) (auto simp: sublist_Cons_right)

lemma split_first_append:
  "\<forall>j<length a. \<not> prefix sep (drop j (a @ sep @ b)) \<Longrightarrow> split_first (a @ sep @ b) sep = a"
proof (induction a)
  case Nil
  have "prefix sep (sep @ b)" by simp
  then show ?case by (cases "sep @ b") auto
next
  case (Cons c a)
  from Cons.prems have "\<not> prefix sep ((c # a) @ sep @ b)" by (metis drop0 length_greater_0_conv list.distinct(1))
  moreover from Cons.prems have "\<forall>j<length a. \<not> prefix sep (drop j (a @ sep @ b))"
    by (metis Suc_less_eq append_Cons drop_Suc_Cons length_Cons)
  ultimately show ?case using Cons.IH by simp
qed

lemma split_first_no_sep: "sep \<noteq> [] \<Longrightarrow> \<not> sublist sep (split_first s sep)"
proof (induction s)
  case Nil
  then show ?case by simp
next
  case (Cons c s)
  show ?case
  proof (cases "prefix sep (c # s)")
    case True
    with Cons.prems show ?thesis by simp
  next
    case False
    have "\<not> prefix sep (c # split_first s sep)"
    proof
      assume "prefix sep (c # split_first s sep)"
      moreover have "prefix (c # split_first s sep) (c # s)" by (simp add: split_first_prefix)
      ultimately have "prefix sep (c # s)" by (rule prefix_order.trans)
      with False show False ..
    qed
    with False Cons show ?thesis by (simp add: sublist_Cons_right)
  qed
qed

lemma split_first_decomp:
  assumes "sublist sep s"
  shows "\<exists>b. s = split_first s sep @ sep @ b
             \<and> (\<forall>j<length (split_first s sep). \<not> prefix sep (drop j s))"
  using assms
proof (induction s)
  case Nil
  then show ?case by simp
next
  case (Cons c s)
  show ?case
  proof (cases "prefix sep (c # s)")
    case True
    then obtain b where "c # s = sep @ b" by (auto simp: prefix_def)
    moreover from True have "split_first (c # s) sep = []" by simp
    ultimately show ?thesis by (metis append_Nil length_0_conv not_less0 list.size(3))
  next
    case False
    with Cons.prems have "sublist sep s" by (simp add: sublist_Cons_right)
    with Cons.IH obtain b where b: "s = split_first s sep @ sep @ b"
      and first: "\<forall>j<length (split_first s sep). \<not> prefix sep (drop j s)"
      by blast
    have "\<not> prefix sep (drop j (c # s))" if "j < Suc (length (split_first s sep))" for j
      using that False first by (cases j) auto
    with False b show ?thesis by auto
  qed
qed

lemma first_occurrence_exists:
  assumes "sublist sep s"
  shows "\<exists>a b. s = a @ sep @ b \<and> (\<forall>j<length a. \<not> occurs_at s sep j)"
proof -
  from split_first_decomp [OF assms] obtain b
    where "s = split_first s sep @ sep @ b"
      "\<forall>j<length (split_first s sep). \<not> prefix sep (drop j s)"
    by blast
  then have "s = split_first s sep @ sep @ b
             \<and> (\<forall>j<length (split_first s sep). \<not> occurs_at s sep j)"
    by (simp add: occurs_at_def)
  then show ?thesis by blast
qed

lemma last_occurrence_exists:
  fixes s sep :: str
  assumes "sublist sep s" "sep \<noteq> []"
  shows "\<exists>a b. s = a @ sep @ b \<and> \<not> sublist sep (tl sep @ b)"
proof (rule rfind_cases [of s sep])
  assume "\<not> sublist sep s"
  with assms show ?thesis by simp
next
  fix i
  assume occ: "occurs_at s sep i" and last: "\<forall>j>i. \<not> occurs_at s sep j"
  let ?a = "take i s" and ?b = "drop (length sep) (drop i s)"
  from occ have "take (length sep) (drop i s) = sep" by (simp add: occurs_at_take)
  then have s: "s = ?a @ sep @ ?b" by (metis append_take_drop_id)
  from occ have len: "length ?a = i" by (simp add: occurs_at_def)
  have "\<not> sublist sep (tl sep @ ?b)"
  proof
    assume "sublist sep (tl sep @ ?b)"
    then obtain m where m: "occurs_at (tl sep @ ?b) sep m" by (blast dest: sublist_occurs_at)
    from assms(2) have "drop (Suc (length ?a + m)) (?a @ sep @ ?b) = drop m (tl sep @ ?b)"
      by (cases sep) (simp_all del: length_take)
    with m s len have "prefix sep (drop (Suc (i + m)) s)" by (simp add: occurs_at_def)
    moreover from m have "m + length sep \<le> length (tl sep @ ?b)" by (simp add: occurs_at_take)
    then have "Suc (i + m) \<le> length s" using assms(2) occ
      by (cases sep) (auto simp: occurs_at_take)
    ultimately have "occurs_at s sep (Suc (i + m))" by (simp add: occurs_at_def)
    with last show False by simp
  qed
  with s show ?thesis by blast
qed

text \<open>The definitions that evaluate the sanitizer on a literal text.\<close>

lemmas text_eval = ustr_def newline_def stop_phrase_def common_closings_def
  primary_cut_def secondary_cut_def contact_cut_def sanitize_def
  strip_def isspace_def lower_def lower_cp_def dotted_I_def rfind_def rsplit1_def
  last_chars_def sublist_code(3) Let_def

section \<open>Lowering a text without U+0130\<close>

lemma length_lower_cp: "c \<noteq> dotted_I \<Longrightarrow> length (lower_cp c) = 1"
  by (simp add: lower_cp_def dotted_I_def)

lemma length_lower: "dotted_I \<notin> set s \<Longrightarrow> length (lower s) = length s"
  by (induction s) (auto simp: lower_def length_lower_cp)

lemma lower_append: "lower (a @ b) = lower a @ lower b"
  by (simp add: lower_def)

lemma lower_map: "dotted_I \<notin> set s \<Longrightarrow> lower s = map (\<lambda>c. hd (lower_cp c)) s"
proof (induction s)
  case Nil
  then show ?case by (simp add: lower_def)
next
  case (Cons c s)
  then have "length (lower_cp c) = 1" by (simp add: length_lower_cp)
  then have "lower_cp c = [hd (lower_cp c)]" by (cases "lower_cp c") auto
  with Cons show ?case by (simp add: lower_def)
qed

lemma lower_take: "dotted_I \<notin> set s \<Longrightarrow> lower (take n s) = take n (lower s)"
proof -
  assume a: "dotted_I \<notin> set s"
  then have "dotted_I \<notin> set (take n s)" by (auto dest: in_set_takeD)
  with a show ?thesis by (simp add: lower_map take_map)
qed

lemma lower_drop: "dotted_I \<notin> set s \<Longrightarrow> lower (drop n s) = drop n (lower s)"
proof -
  assume a: "dotted_I \<notin> set s"
  then have "dotted_I \<notin> set (drop n s)" by (auto dest: in_set_dropD)
  with a show ?thesis by (simp add: lower_map drop_map)
qed

lemma occurs_at_lower:
  assumes "dotted_I \<notin> set s" "dotted_I \<notin> set phrase"
  shows "occurs_at (lower s) (lower phrase) i \<longleftrightarrow> ci_occurs_at s phrase i"
proof -
  have "dotted_I \<notin> set (drop i s)" using assms(1) by (auto dest: in_set_dropD)
  then have "take (length phrase) (drop i (lower s)) = lower (take (length phrase) (drop i s))"
    using assms(1) by (simp add: lower_drop lower_take)
  then show ?thesis
    using assms by (simp add: occurs_at_take ci_occurs_at_def length_lower)
qed

section \<open>What a successful call returns\<close>

text \<open>The loop's equation is unfolded by hand, one attempt at a time.\<close>

declare retry_loop.simps [simp del]

lemma extract_chat_completion: "extract_content (chat_completion s) = Inr (JStr s)"
  by (simp add: extract_content_def chat_completion_def py_get_def ustr_def)

lemma process_content_Inr:
  "process_content c = Inr e \<Longrightarrow> \<exists>raw. c = JStr raw \<and> e = post_process raw"
  by (cases c) auto

lemma attempt_Inr_reply:
  assumes "attempt r = Inr e"
  shows "\<exists>st j raw. r = Reply st (Some j) \<and> \<not> (400 \<le> st \<and> st < 600)
            \<and> extract_content j = Inr (JStr raw) \<and> raw \<noteq> [] \<and> e = post_process raw"
proof (cases r)
  case PostRaised
  with assms show ?thesis by simp
next
  case (Reply st body)
  with assms obtain j c
    where c: "body = Some j" "\<not> (400 \<le> st \<and> st < 600)" "extract_content j = Inr c" "truthy c"
      "process_content c = Inr e"
    by (auto split: if_splits option.splits sum.splits)
  from process_content_Inr [OF c(5)] obtain raw where "c = JStr raw" "e = post_process raw"
    by blast
  with c Reply show ?thesis by auto
qed

lemma retry_loop_result:
  "result (retry_loop net i d sl) = Some e
   \<Longrightarrow> \<exists>k. i \<le> k \<and> k < max_retries \<and> attempt (net k) = Inr e"
proof (induction net i d sl rule: retry_loop.induct)
  case (1 net i last_delay sl)
  show ?case
  proof (cases "attempt (net i)")
    case (Inr email)
    with "1.prems" show ?thesis
      by (subst (asm) retry_loop.simps) (auto split: if_splits)
  next
    case (Inl ex)
    show ?thesis
    proof (cases "i < max_retries \<and> ex = HTTPError 429 \<and> i < max_retries - 1")
      case True
      with Inl "1.prems"
      have "result (retry_loop net (Suc i) (last_delay * 2) (sl @ [last_delay])) = Some e"
        by (subst (asm) retry_loop.simps) simp
      with "1.IH" [of ex 429] True Inl
      obtain k where "Suc i \<le> k" "k < max_retries" "attempt (net k) = Inr e"
        by auto
      then show ?thesis by (intro exI [of _ k]) simp
    next
      case False
      with Inl "1.prems" show ?thesis
        by (subst (asm) retry_loop.simps) (auto split: if_splits exn.splits)
    qed
  qed
qed

lemma generate_result_reply:
  assumes "result (generate_application_email srv jd resume) = Some e"
  shows "\<exists>k st j raw. k < max_retries \<and> srv (user_query jd resume) k = Reply st (Some j)
            \<and> extract_content j = Inr (JStr raw) \<and> raw \<noteq> [] \<and> e = post_process raw"
proof -
  from assms obtain k where "k < max_retries" "attempt (srv (user_query jd resume) k) = Inr e"
    unfolding generate_application_email_def by (blast dest: retry_loop_result)
  with attempt_Inr_reply [of "srv (user_query jd resume) k" e] show ?thesis by blast
qed

lemma generate_first_reply:
  "s \<noteq> [] \<Longrightarrow>
   generate_application_email (\<lambda>q i. Reply 200 (Some (chat_completion s))) jd resume
     = \<lparr>result = Some (post_process s), slept = [], posts = 1\<rparr>"
  by (simp add: generate_application_email_def retry_loop.simps max_retries_def
      extract_chat_completion)

text \<open>
  C1. Whenever \<open>generate_application_email\<close> returns a result and not \<open>None\<close>, the
  email it returns ends with \<open>CLOSING_BLOCK\<close>, whatever the model wrote.
\<close>

theorem final_email_ends_with_closing_block:
  assumes "result (generate_application_email srv job_description resume_data) = Some final_email"
  shows "suffix CLOSING_BLOCK final_email"
proof -
  from generate_result_reply [OF assms] obtain raw where "final_email = post_process raw"
    by blast
  then show ?thesis by (simp add: post_process_def suffix_def)
qed

theorem final_email_ends_with_closing_block_witness:
  "result (generate_application_email
             (\<lambda>q i. Reply 200 (Some (chat_completion (ustr ''---END-OF-BODY---''))))
             (ustr ''job'') (ustr ''cv''))
     = Some ((newline @ newline) @ CLOSING_BLOCK)
   \<and> suffix CLOSING_BLOCK ((newline @ newline) @ CLOSING_BLOCK)"
proof -
  have "sanitize (ustr ''---END-OF-BODY---'') = []"
    by (simp add: text_eval)
  then have h: "result (generate_application_email
                     (\<lambda>q i. Reply 200 (Some (chat_completion (ustr ''---END-OF-BODY---''))))
                     (ustr ''job'') (ustr ''cv''))
             = Some ((newline @ newline) @ CLOSING_BLOCK)"
    by (simp add: generate_first_reply post_process_def ustr_def)
  from final_email_ends_with_closing_block [OF h] h show ?thesis by simp
qed

section \<open>Separator and closing block\<close>

text \<open>
  C5. The email returned is the sanitized body, then exactly two newline characters (one
  blank line), then \<open>CLOSING_BLOCK\<close> at once. \<open>CLOSING_BLOCK\<close> holds the availability
  line, \<open>Best regards,\<close>, the name and the four contact lines; it starts with two
  newlines of its own.
\<close>

theorem separator_then_closing_block:
  assumes "result (generate_application_email srv job_description resume_data) = Some final_email"
  shows "(\<exists>k status_code reply raw.
            srv (user_query job_description resume_data) k = Reply status_code (Some reply)
            \<and> extract_content reply = Inr (JStr raw)
            \<and> final_email = sanitize raw @ [10, 10] @ CLOSING_BLOCK)
         \<and> CLOSING_BLOCK
             = [10, 10] @ MANDATORY_CLOSING_LINE @ [10, 10]
               @ ustr ''Best regards,'' @ [10]
               @ ustr ''Abhinav Prasad'' @ [10]
               @ ustr ''Email: abhinavprasad2004ap@gmail.com'' @ [10]
               @ ustr ''Phone: 8989625663'' @ [10]
               @ ustr ''LinkedIn: https://www.linkedin.com/in/abhinav-prasad-0a894b251/'' @ [10]
               @ ustr ''GitHub: https://github.com/Abhii242004''"
proof
  from generate_result_reply [OF assms] obtain k st j raw
    where "srv (user_query job_description resume_data) k = Reply st (Some j)"
      "extract_content j = Inr (JStr raw)" "final_email = post_process raw"
    by blast
  then show "\<exists>k status_code reply raw.
            srv (user_query job_description resume_data) k = Reply status_code (Some reply)
            \<and> extract_content reply = Inr (JStr raw)
            \<and> final_email = sanitize raw @ [10, 10] @ CLOSING_BLOCK"
    by (auto simp: post_process_def newline_def)
next
  show "CLOSING_BLOCK
             = [10, 10] @ MANDATORY_CLOSING_LINE @ [10, 10]
               @ ustr ''Best regards,'' @ [10]
               @ ustr ''Abhinav Prasad'' @ [10]
               @ ustr ''Email: abhinavprasad2004ap@gmail.com'' @ [10]
               @ ustr ''Phone: 8989625663'' @ [10]
               @ ustr ''LinkedIn: https://www.linkedin.com/in/abhinav-prasad-0a894b251/'' @ [10]
               @ ustr ''GitHub: https://github.com/Abhii242004''"
    by (simp add: CLOSING_BLOCK_def newline_def)
qed

lemma sanitize_plain_example: "sanitize (ustr ''Dear team, I fit the role.'') = ustr ''Dear team, I fit the role.''"
  by (simp add: text_eval)

theorem separator_then_closing_block_witness:
  "result (generate_application_email
             (\<lambda>q i. Reply 200 (Some (chat_completion (ustr ''Dear team, I fit the role.''))))
             (ustr ''job'') (ustr ''cv''))
     = Some (ustr ''Dear team, I fit the role.'' @ [10, 10] @ CLOSING_BLOCK)
   \<and> (\<exists>k status_code reply raw.
         Reply 200 (Some (chat_completion (ustr ''Dear team, I fit the role.'')))
           = Reply status_code (Some reply)
         \<and> extract_content reply = Inr (JStr raw)
         \<and> ustr ''Dear team, I fit the role.'' @ [10, 10] @ CLOSING_BLOCK
             = sanitize raw @ [10, 10] @ CLOSING_BLOCK)"
proof -
  let ?srv = "\<lambda>(q::str) (i::nat). Reply 200 (Some (chat_completion (ustr ''Dear team, I fit the role.'')))"
  have h: "result (generate_application_email ?srv (ustr ''job'') (ustr ''cv''))
             = Some (ustr ''Dear team, I fit the role.'' @ [10, 10] @ CLOSING_BLOCK)"
    by (simp add: generate_first_reply ustr_def post_process_def newline_def
        sanitize_plain_example [unfolded ustr_def, simplified])
  from separator_then_closing_block [OF h] h show ?thesis by blast
qed

section \<open>The retry loop: rate limits and terminal failures\<close>

lemma attempt_rate_limited: "rate_limited r \<Longrightarrow> attempt r = Inl (HTTPError 429)"
  by (cases r) auto

lemma py_get_no_http: "py_get d key dflt \<noteq> Inl (HTTPError n)"
  by (simp add: py_get_def split: json.splits option.splits)

lemma item0_no_http: "item0 x \<noteq> Inl (HTTPError n)"
  by (cases x rule: item0.cases) simp_all

lemma process_content_no_http: "process_content c \<noteq> Inl (HTTPError n)"
  by (cases c) simp_all

lemma extract_content_no_http: "extract_content j \<noteq> Inl (HTTPError n)"
  using py_get_no_http item0_no_http
  by (auto simp: extract_content_def split: sum.splits)

lemma attempt_HTTPError:
  "attempt r = Inl (HTTPError n) \<longleftrightarrow> (\<exists>body. r = Reply n body \<and> 400 \<le> n \<and> n < 600)"
proof (cases r)
  case PostRaised
  then show ?thesis by simp
next
  case (Reply st body)
  then show ?thesis
    using extract_content_no_http process_content_no_http
    by (auto split: option.splits sum.splits)
qed

lemma attempt_429_iff: "attempt r = Inl (HTTPError 429) \<longleftrightarrow> rate_limited r"
  unfolding attempt_HTTPError by (cases r) auto

lemma retry_loop_rate_limited:
  "\<forall>j<k. rate_limited (net (i + j)) \<Longrightarrow> i + k < max_retries \<Longrightarrow>
   retry_loop net i d sl = retry_loop net (i + k) (d * 2 ^ k) (sl @ map (\<lambda>j. d * 2 ^ j) [0..<k])"
proof (induction k arbitrary: i d sl)
  case 0
  then show ?case by simp
next
  case (Suc k)
  from Suc.prems have first: "rate_limited (net i)" by (metis add.right_neutral zero_less_Suc)
  from Suc.prems have rest: "\<forall>j<k. rate_limited (net (Suc i + j))" by auto
  have "retry_loop net i d sl = retry_loop net (Suc i) (d * 2) (sl @ [d])"
    using Suc.prems(2) by (subst retry_loop.simps) (simp add: attempt_rate_limited [OF first])
  also have "\<dots> = retry_loop net (Suc i + k) (d * 2 * 2 ^ k) ((sl @ [d]) @ map (\<lambda>j. d * 2 * 2 ^ j) [0..<k])"
    using Suc.prems(2) by (intro Suc.IH [OF rest]) simp
  also have "(sl @ [d]) @ map (\<lambda>j. d * 2 * 2 ^ j) [0..<k] = sl @ map (\<lambda>j. d * 2 ^ j) [0..<Suc k]"
    by (simp add: upt_rec [of 0 "Suc k"] map_Suc_upt [symmetric] del: upt_Suc) 
  finally show ?case by (simp add: mult.assoc)
qed

lemma generate_after_rate_limits:
  assumes "\<forall>i<k. rate_limited (srv (user_query jd resume) i)" "k < max_retries"
  shows "generate_application_email srv jd resume
           = retry_loop (srv (user_query jd resume)) k (2 ^ k) (backoff k)"
  using retry_loop_rate_limited [of k "srv (user_query jd resume)" 0 1 "[]"] assms
  by (simp add: generate_application_email_def backoff_def)

lemma retry_loop_success:
  "i < max_retries \<Longrightarrow> attempt (net i) = Inr e \<Longrightarrow>
   retry_loop net i d sl = \<lparr>result = Some e, slept = sl, posts = Suc i\<rparr>"
  by (subst retry_loop.simps) simp

lemma retry_loop_terminal:
  "i < max_retries \<Longrightarrow> attempt (net i) = Inl ex \<Longrightarrow> ex \<noteq> HTTPError 429 \<Longrightarrow>
   retry_loop net i d sl = \<lparr>result = None, slept = sl, posts = Suc i\<rparr>"
  by (subst retry_loop.simps) (simp split: exn.splits)

lemma retry_loop_exhausted:
  "Suc i = max_retries \<Longrightarrow> rate_limited (net i) \<Longrightarrow>
   retry_loop net i d sl = \<lparr>result = None, slept = sl, posts = Suc i\<rparr>"
  by (subst retry_loop.simps) (auto simp: attempt_rate_limited)

lemma retry_loop_posts:
  "i < max_retries \<Longrightarrow>
   i < posts (retry_loop net i d sl) \<and> posts (retry_loop net i d sl) \<le> max_retries"
proof (induction net i d sl rule: retry_loop.induct)
  case (1 net i last_delay sl)
  show ?case
  proof (cases "attempt (net i)")
    case (Inr email)
    with "1.prems" show ?thesis by (simp add: retry_loop_success)
  next
    case (Inl ex)
    consider "ex \<noteq> HTTPError 429" | "ex = HTTPError 429" "Suc i = max_retries"
      | "ex = HTTPError 429" "i < max_retries - 1"
      using "1.prems" by fastforce
    then show ?thesis
    proof cases
      case 1
      with Inl "1.prems" show ?thesis by (simp add: retry_loop_terminal)
    next
      case 2
      with Inl have "rate_limited (net i)" by (simp add: attempt_429_iff)
      with 2 "1.prems" show ?thesis by (simp add: retry_loop_exhausted)
    next
      case 3
      with Inl "1.prems" have "retry_loop net i last_delay sl
                   = retry_loop net (Suc i) (last_delay * 2) (sl @ [last_delay])"
        by (subst retry_loop.simps) simp
      moreover from 3 Inl "1.prems" "1.IH" [of ex 429]
      have "Suc i < posts (retry_loop net (Suc i) (last_delay * 2) (sl @ [last_delay]))
            \<and> posts (retry_loop net (Suc i) (last_delay * 2) (sl @ [last_delay])) \<le> max_retries"
        by (simp add: less_diff_conv)
      ultimately show ?thesis by simp
    qed
  qed
qed

lemma generate_posts:
  "1 \<le> posts (generate_application_email srv jd resume)
   \<and> posts (generate_application_email srv jd resume) \<le> 4"
  using retry_loop_posts [of 0 "srv (user_query jd resume)" 1 "[]"]
  by (simp add: generate_application_email_def max_retries_def)

lemma backoff_3: "backoff 3 = [1, 2, 4]"
  by (simp add: backoff_def upt_rec numeral_eq_Suc)


text \<open>
  C2. A reply with status 429 makes the loop sleep \<open>last_delay\<close> seconds and double
  \<open>last_delay\<close>, which starts at 1; there are at most 4 attempts. After \<open>k\<close> rate limits
  in a row (\<open>k < 4\<close>) the delays slept are \<open>1, 2, ..., 2 ^ (k - 1)\<close> and attempt \<open>k\<close>
  decides the result. Three rate limits and then a success: the delays are 1, 2, 4 and
  the fourth attempt's email is returned. Four rate limits: \<open>None\<close> is returned after
  the fourth attempt, and there is no fifth: no call makes more than 4 requests.
\<close>

theorem rate_limit_backoff:
  assumes net: "net = srv (user_query job_description resume_data)"
  shows "(k < max_retries \<and> (\<forall>i<k. rate_limited (net i)) \<and> \<not> rate_limited (net k)
            \<longrightarrow> generate_application_email srv job_description resume_data
                  = \<lparr>result = (case attempt (net k) of Inr email \<Rightarrow> Some email | Inl ex \<Rightarrow> None),
                     slept = map (\<lambda>j. 2 ^ j) [0..<k], posts = Suc k\<rparr>)
       \<and> ((\<forall>i<3. rate_limited (net i)) \<and> attempt (net 3) = Inr email
            \<longrightarrow> generate_application_email srv job_description resume_data
                  = \<lparr>result = Some email, slept = [1, 2, 4], posts = 4\<rparr>)
       \<and> ((\<forall>i<4. rate_limited (net i))
            \<longrightarrow> generate_application_email srv job_description resume_data
                  = \<lparr>result = None, slept = [1, 2, 4], posts = 4\<rparr>)
       \<and> posts (generate_application_email srv job_description resume_data) \<le> 4"
proof (intro conjI impI)
  assume h: "k < max_retries \<and> (\<forall>i<k. rate_limited (net i)) \<and> \<not> rate_limited (net k)"
  then have gen: "generate_application_email srv job_description resume_data
                    = retry_loop net k (2 ^ k) (backoff k)"
    using generate_after_rate_limits [of k srv job_description resume_data] net by simp
  show "generate_application_email srv job_description resume_data
          = \<lparr>result = (case attempt (net k) of Inr email \<Rightarrow> Some email | Inl ex \<Rightarrow> None),
             slept = map (\<lambda>j. 2 ^ j) [0..<k], posts = Suc k\<rparr>"
  proof (cases "attempt (net k)")
    case (Inl ex)
    with h have "ex \<noteq> HTTPError 429" by (auto simp: attempt_429_iff)
    with h Inl gen show ?thesis by (simp add: retry_loop_terminal backoff_def)
  next
    case (Inr e)
    with h gen show ?thesis by (simp add: retry_loop_success backoff_def)
  qed
next
  assume h: "(\<forall>i<3. rate_limited (net i)) \<and> attempt (net 3) = Inr email"
  then have "generate_application_email srv job_description resume_data
               = retry_loop net 3 (2 ^ 3) (backoff 3)"
    using generate_after_rate_limits [of 3 srv job_description resume_data] net
    by (simp add: max_retries_def)
  with h show "generate_application_email srv job_description resume_data
                 = \<lparr>result = Some email, slept = [1, 2, 4], posts = 4\<rparr>"
    by (simp add: retry_loop_success max_retries_def backoff_3)
next
  assume h: "\<forall>i<4. rate_limited (net i)"
  then have "generate_application_email srv job_description resume_data
               = retry_loop net 3 (2 ^ 3) (backoff 3)"
    using generate_after_rate_limits [of 3 srv job_description resume_data] net
    by (simp add: max_retries_def)
  with h show "generate_application_email srv job_description resume_data
                 = \<lparr>result = None, slept = [1, 2, 4], posts = 4\<rparr>"
    by (simp add: retry_loop_exhausted max_retries_def backoff_3)
next
  show "posts (generate_application_email srv job_description resume_data) \<le> 4"
    using generate_posts by blast
qed

theorem rate_limit_backoff_witness:
  "generate_application_email
     (\<lambda>q i. if i < 3 then Reply 429 None else Reply 200 (Some (chat_completion (ustr ''Hi''))))
     (ustr ''job'') (ustr ''cv'')
     = \<lparr>result = Some (post_process (ustr ''Hi'')), slept = [1, 2, 4], posts = 4\<rparr>
   \<and> generate_application_email (\<lambda>q i. Reply 429 None) (ustr ''job'') (ustr ''cv'')
     = \<lparr>result = None, slept = [1, 2, 4], posts = 4\<rparr>
   \<and> generate_application_email (\<lambda>q i. if i < 1 then Reply 429 None else Reply 503 None)
       (ustr ''job'') (ustr ''cv'')
     = \<lparr>result = None, slept = [1], posts = 2\<rparr>"
proof (intro conjI)
  let ?srv = "\<lambda>(q::str) (i::nat). if i < 3 then Reply 429 None
                 else Reply 200 (Some (chat_completion (ustr ''Hi'')))"
  have "(\<forall>i<3. rate_limited (?srv (user_query (ustr ''job'') (ustr ''cv'')) i))
        \<and> attempt (?srv (user_query (ustr ''job'') (ustr ''cv'')) 3) = Inr (post_process (ustr ''Hi''))"
    by (simp add: extract_chat_completion ustr_def)
  with rate_limit_backoff [where srv = ?srv and job_description = "ustr ''job''"
      and resume_data = "ustr ''cv''" and email = "post_process (ustr ''Hi'')", OF refl]
  show "generate_application_email ?srv (ustr ''job'') (ustr ''cv'')
          = \<lparr>result = Some (post_process (ustr ''Hi'')), slept = [1, 2, 4], posts = 4\<rparr>"
    by blast
next
  let ?srv = "\<lambda>(q::str) (i::nat). Reply 429 None"
  have "\<forall>i<4. rate_limited (?srv (user_query (ustr ''job'') (ustr ''cv'')) i)"
    by simp
  with rate_limit_backoff [where srv = ?srv and job_description = "ustr ''job''"
      and resume_data = "ustr ''cv''", OF refl]
  show "generate_application_email ?srv (ustr ''job'') (ustr ''cv'')
          = \<lparr>result = None, slept = [1, 2, 4], posts = 4\<rparr>"
    by blast
next
  let ?srv = "\<lambda>(q::str) (i::nat). if i < 1 then Reply 429 None else Reply 503 None"
  have "1 < max_retries \<and> (\<forall>i<1. rate_limited (?srv (user_query (ustr ''job'') (ustr ''cv'')) i))
        \<and> \<not> rate_limited (?srv (user_query (ustr ''job'') (ustr ''cv'')) 1)"
    by (simp add: max_retries_def)
  with rate_limit_backoff [where srv = ?srv and job_description = "ustr ''job''"
      and resume_data = "ustr ''cv''" and k = 1, OF refl]
  show "generate_application_email ?srv (ustr ''job'') (ustr ''cv'')
          = \<lparr>result = None, slept = [1], posts = 2\<rparr>"
    by simp
qed

text \<open>
  C8. Once the attempts before it were rate limited, an attempt that meets an HTTP error
  status other than 429 (500, say), on the first attempt or a later one, ends the call
  with \<open>None\<close> and without another request; so does every exception that is not an
  \<open>HTTPError\<close>: a failure of the connection (\<open>RequestException\<close>), a body that is not
  JSON (\<open>JSONDecodeError\<close>), a content that is empty or missing (\<open>ValueError\<close>). Each
  exception is a value the loop turns into \<open>None\<close>; none leaves the function.
\<close>

theorem terminal_failure_returns_none:
  assumes net: "net = srv (user_query job_description resume_data)"
    and k: "k < max_retries" "\<forall>i<k. rate_limited (net i)"
  shows "((\<exists>status_code body. net k = Reply status_code body
              \<and> 400 \<le> status_code \<and> status_code < 600 \<and> status_code \<noteq> 429)
            \<longrightarrow> generate_application_email srv job_description resume_data
                  = \<lparr>result = None, slept = map (\<lambda>j. 2 ^ j) [0..<k], posts = Suc k\<rparr>)
       \<and> (attempt (net k) = Inl ex \<and> (\<forall>n. ex \<noteq> HTTPError n)
            \<longrightarrow> generate_application_email srv job_description resume_data
                  = \<lparr>result = None, slept = map (\<lambda>j. 2 ^ j) [0..<k], posts = Suc k\<rparr>)
       \<and> attempt PostRaised = Inl RequestException
       \<and> (\<not> (400 \<le> st \<and> st < 600) \<longrightarrow> attempt (Reply st None) = Inl JSONDecodeError)
       \<and> (\<not> (400 \<le> st \<and> st < 600)
             \<and> (extract_content j = Inr (JStr []) \<or> extract_content j = Inr JNull)
            \<longrightarrow> attempt (Reply st (Some j)) = Inl ValueError)"
proof -
  have gen: "generate_application_email srv job_description resume_data
               = retry_loop net k (2 ^ k) (backoff k)"
    using generate_after_rate_limits [of k srv job_description resume_data] net k by simp
  have stop: "generate_application_email srv job_description resume_data
                = \<lparr>result = None, slept = map (\<lambda>j. 2 ^ j) [0..<k], posts = Suc k\<rparr>"
    if "attempt (net k) = Inl e" "e \<noteq> HTTPError 429" for e
    using that k gen by (simp add: retry_loop_terminal backoff_def)
  have "generate_application_email srv job_description resume_data
          = \<lparr>result = None, slept = map (\<lambda>j. 2 ^ j) [0..<k], posts = Suc k\<rparr>"
    if "net k = Reply status_code body" "400 \<le> status_code" "status_code < 600"
      "status_code \<noteq> 429" for status_code body
    using that by (intro stop [of "HTTPError status_code"]) simp_all
  moreover have "generate_application_email srv job_description resume_data
          = \<lparr>result = None, slept = map (\<lambda>j. 2 ^ j) [0..<k], posts = Suc k\<rparr>"
    if "attempt (net k) = Inl ex" "\<forall>n. ex \<noteq> HTTPError n"
    using that by (intro stop [of ex]) simp_all
  ultimately show ?thesis by auto
qed


theorem terminal_failure_returns_none_witness:
  "generate_application_email (\<lambda>q i. Reply 500 None) (ustr ''job'') (ustr ''cv'')
     = \<lparr>result = None, slept = [], posts = 1\<rparr>
   \<and> generate_application_email (\<lambda>q i. if i < 1 then Reply 429 None else PostRaised)
       (ustr ''job'') (ustr ''cv'')
     = \<lparr>result = None, slept = [1], posts = 2\<rparr>
   \<and> generate_application_email (\<lambda>q i. Reply 200 (Some (chat_completion [])))
       (ustr ''job'') (ustr ''cv'')
     = \<lparr>result = None, slept = [], posts = 1\<rparr>
   \<and> generate_application_email (\<lambda>q i. Reply 200 (Some (JObj [])))
       (ustr ''job'') (ustr ''cv'')
     = \<lparr>result = None, slept = [], posts = 1\<rparr>"
proof (intro conjI)
  let ?srv = "\<lambda>(q::str) (i::nat). Reply 500 None"
  have "\<exists>status_code body. ?srv (user_query (ustr ''job'') (ustr ''cv'')) 0 = Reply status_code body
          \<and> 400 \<le> status_code \<and> status_code < 600 \<and> status_code \<noteq> 429"
    by simp
  with terminal_failure_returns_none [where srv = ?srv and job_description = "ustr ''job''"
      and resume_data = "ustr ''cv''" and k = 0, OF refl]
  show "generate_application_email ?srv (ustr ''job'') (ustr ''cv'')
          = \<lparr>result = None, slept = [], posts = 1\<rparr>"
    by (simp add: max_retries_def)
next
  let ?srv = "\<lambda>(q::str) (i::nat). if i < 1 then Reply 429 None else PostRaised"
  have "attempt (?srv (user_query (ustr ''job'') (ustr ''cv'')) 1) = Inl RequestException
          \<and> (\<forall>n. RequestException \<noteq> HTTPError n)"
    by simp
  with terminal_failure_returns_none [where srv = ?srv and job_description = "ustr ''job''"
      and resume_data = "ustr ''cv''" and k = 1 and ex = RequestException, OF refl]
  show "generate_application_email ?srv (ustr ''job'') (ustr ''cv'')
          = \<lparr>result = None, slept = [1], posts = 2\<rparr>"
    by (simp add: max_retries_def)
next
  let ?srv = "\<lambda>(q::str) (i::nat). Reply 200 (Some (chat_completion []))"
  have "attempt (?srv (user_query (ustr ''job'') (ustr ''cv'')) 0) = Inl ValueError
          \<and> (\<forall>n. ValueError \<noteq> HTTPError n)"
    by (simp add: extract_chat_completion)
  with terminal_failure_returns_none [where srv = ?srv and job_description = "ustr ''job''"
      and resume_data = "ustr ''cv''" and k = 0 and ex = ValueError, OF refl]
  show "generate_application_email ?srv (ustr ''job'') (ustr ''cv'')
          = \<lparr>result = None, slept = [], posts = 1\<rparr>"
    by (simp add: max_retries_def)
next
  let ?srv = "\<lambda>(q::str) (i::nat). Reply 200 (Some (JObj []))"
  have "attempt (?srv (user_query (ustr ''job'') (ustr ''cv'')) 0) = Inl ValueError
          \<and> (\<forall>n. ValueError \<noteq> HTTPError n)"
    by (simp add: extract_content_def py_get_def)
  with terminal_failure_returns_none [where srv = ?srv and job_description = "ustr ''job''"
      and resume_data = "ustr ''cv''" and k = 0 and ex = ValueError, OF refl]
  show "generate_application_email ?srv (ustr ''job'') (ustr ''cv'')
          = \<lparr>result = None, slept = [], posts = 1\<rparr>"
    by (simp add: max_retries_def)
qed

section \<open>The command line: input errors\<close>

text \<open>
  C9. With fewer than two arguments after the script's name, with either file missing,
  or with either file empty once trimmed, the script prints a message and exits with
  status 1, and \<open>requests.post\<close> has not been called.
\<close>

theorem cli_input_errors_exit_1:
  assumes "length argv < 3
           \<or> fs (argv ! 1) = None \<or> fs (argv ! 2) = None
           \<or> (\<exists>jd_text. fs (argv ! 1) = Some jd_text \<and> strip jd_text = [])
           \<or> (\<exists>resume_text. fs (argv ! 2) = Some resume_text \<and> strip resume_text = [])"
  shows "exit_status (main argv fs srv) = 1
         \<and> http_calls (main argv fs srv) = 0
         \<and> stdout (main argv fs srv) \<noteq> []"
proof (cases "length argv < 3")
  case True
  then show ?thesis by (simp add: main_def)
next
  case False
  with assms show ?thesis
    by (auto simp: main_def Let_def split: option.splits)
qed

theorem cli_input_errors_exit_1_witness:
  "exit_status (main [ustr ''email_generator.py'', ustr ''jd.txt'', ustr ''resume.txt'']
                  [ustr ''jd.txt'' \<mapsto> ustr ''Engineer'', ustr ''resume.txt'' \<mapsto> []]
                  (\<lambda>q i. Reply 200 (Some (chat_completion (ustr ''Hi''))))) = 1
   \<and> http_calls (main [ustr ''email_generator.py'', ustr ''jd.txt'', ustr ''resume.txt'']
                  [ustr ''jd.txt'' \<mapsto> ustr ''Engineer'', ustr ''resume.txt'' \<mapsto> []]
                  (\<lambda>q i. Reply 200 (Some (chat_completion (ustr ''Hi''))))) = 0
   \<and> exit_status (main [ustr ''email_generator.py'', ustr ''jd.txt''] Map.empty (\<lambda>q i. PostRaised)) = 1
   \<and> exit_status (main [ustr ''email_generator.py'', ustr ''jd.txt'', ustr ''resume.txt'']
                  [ustr ''resume.txt'' \<mapsto> ustr ''CV'']  (\<lambda>q i. PostRaised)) = 1"
proof -
  let ?argv = "[ustr ''email_generator.py'', ustr ''jd.txt'', ustr ''resume.txt'']"
  let ?fs = "[ustr ''jd.txt'' \<mapsto> ustr ''Engineer'', ustr ''resume.txt'' \<mapsto> []]"
  have a: "\<exists>resume_text. ?fs (?argv ! 2) = Some resume_text \<and> strip resume_text = []"
    by (simp add: strip_def ustr_def)
  have b: "length [ustr ''email_generator.py'', ustr ''jd.txt''] < 3" by simp
  have c: "[ustr ''resume.txt'' \<mapsto> ustr ''CV''] (?argv ! 1) = None" by (simp add: ustr_def)
  from cli_input_errors_exit_1 [of ?argv ?fs "\<lambda>q i. Reply 200 (Some (chat_completion (ustr ''Hi'')))"] a
    cli_input_errors_exit_1 [of "[ustr ''email_generator.py'', ustr ''jd.txt'']" Map.empty "\<lambda>q i. PostRaised"] b
    cli_input_errors_exit_1 [of ?argv "[ustr ''resume.txt'' \<mapsto> ustr ''CV'']" "\<lambda>q i. PostRaised"] c
  show ?thesis by blast
qed

text \<open>With both files present and not empty the request is made.\<close>

lemma cli_valid_input_calls_api:
  "http_calls (main [ustr ''email_generator.py'', ustr ''jd.txt'', ustr ''resume.txt'']
                  [ustr ''jd.txt'' \<mapsto> ustr ''Engineer'', ustr ''resume.txt'' \<mapsto> ustr ''CV'']
                  (\<lambda>q i. Reply 200 (Some (chat_completion (ustr ''Hi''))))) = 1"
  by (simp add: main_def ustr_def strip_def isspace_def generate_first_reply Let_def post_process_def newline_def)

section \<open>The body is cut out of the model's text\<close>

lemma sublist_primary_cut: "sublist (primary_cut t) t"
proof (cases "sublist stop_phrase t")
  case True
  have "sublist (strip (split_first t stop_phrase)) (split_first t stop_phrase)"
    by (rule sublist_strip)
  also have "sublist (split_first t stop_phrase) t"
    by (rule prefix_imp_sublist) (rule split_first_prefix)
  finally show ?thesis using True by (simp add: primary_cut_def)
next
  case False
  then show ?thesis by (simp add: primary_cut_def)
qed

lemma sublist_strip_take: "sublist (strip (take n t)) t"
  using sublist_strip sublist_take sublist_order.order_trans by blast

lemma sublist_closing_loop: "sublist (closing_loop cs t) t"
  by (induction cs) (auto simp: Let_def sublist_strip_take)

lemma sublist_secondary_cut: "sublist (secondary_cut t) t"
  by (simp add: secondary_cut_def sublist_closing_loop)

lemma sublist_contact_cut: "sublist (contact_cut t) t"
  by (auto simp: contact_cut_def rsplit1_def Let_def sublist_strip_take)

lemma sublist_sanitize: "sublist (sanitize raw) raw"
proof -
  have "sublist (sanitize raw) (secondary_cut (primary_cut raw))"
    unfolding sanitize_def by (rule sublist_contact_cut)
  also have "sublist (secondary_cut (primary_cut raw)) (primary_cut raw)"
    by (rule sublist_secondary_cut)
  also have "sublist (primary_cut raw) raw"
    by (rule sublist_primary_cut)
  finally show ?thesis .
qed

text \<open>
  C10. On the success path the body of the email (the email without the separator and
  the closing block appended to it) is a contiguous piece of the text the model
  returned: each of the three steps returns a contiguous piece of its input, so no
  step inserts, repeats or reorders a character.
\<close>

theorem sanitized_body_is_substring:
  assumes "result (generate_application_email srv job_description resume_data) = Some final_email"
  shows "\<exists>k status_code reply raw.
           srv (user_query job_description resume_data) k = Reply status_code (Some reply)
           \<and> extract_content reply = Inr (JStr raw)
           \<and> final_email = sanitize raw @ (newline @ newline) @ CLOSING_BLOCK
           \<and> sublist (primary_cut raw) raw
           \<and> sublist (secondary_cut (primary_cut raw)) (primary_cut raw)
           \<and> sublist (contact_cut (secondary_cut (primary_cut raw))) (secondary_cut (primary_cut raw))
           \<and> sublist (sanitize raw) raw"
proof -
  from generate_result_reply [OF assms] obtain k st j raw
    where "srv (user_query job_description resume_data) k = Reply st (Some j)"
      "extract_content j = Inr (JStr raw)" "final_email = post_process raw"
    by blast
  then show ?thesis
    using sublist_primary_cut sublist_secondary_cut sublist_contact_cut sublist_sanitize
    by (auto simp: post_process_def)
qed

theorem sanitized_body_is_substring_witness:
  "result (generate_application_email
             (\<lambda>q i. Reply 200 (Some (chat_completion (ustr ''Dear team. Sincerely, Bob''))))
             (ustr ''job'') (ustr ''cv''))
     = Some (post_process (ustr ''Dear team. Sincerely, Bob''))
   \<and> (\<exists>k status_code reply raw.
         Reply 200 (Some (chat_completion (ustr ''Dear team. Sincerely, Bob'')))
           = Reply status_code (Some reply)
         \<and> extract_content reply = Inr (JStr raw)
         \<and> post_process (ustr ''Dear team. Sincerely, Bob'')
             = sanitize raw @ (newline @ newline) @ CLOSING_BLOCK
         \<and> sublist (primary_cut raw) raw
         \<and> sublist (secondary_cut (primary_cut raw)) (primary_cut raw)
         \<and> sublist (contact_cut (secondary_cut (primary_cut raw))) (secondary_cut (primary_cut raw))
         \<and> sublist (sanitize raw) raw)
   \<and> sanitize (ustr ''Dear team. Sincerely, Bob'') = ustr ''Dear team.''"
proof -
  let ?srv = "\<lambda>(q::str) (i::nat). Reply 200 (Some (chat_completion (ustr ''Dear team. Sincerely, Bob'')))"
  have h: "result (generate_application_email ?srv (ustr ''job'') (ustr ''cv''))
             = Some (post_process (ustr ''Dear team. Sincerely, Bob''))"
    by (simp add: generate_first_reply ustr_def)
  have "sanitize (ustr ''Dear team. Sincerely, Bob'') = ustr ''Dear team.''"
    by (simp add: text_eval)
  with sanitized_body_is_substring [OF h] h show ?thesis by blast
qed

section \<open>The stop phrase\<close>

lemma sublist_across:
  assumes "c \<notin> set m"
  shows "sublist m (x @ c # y) \<longleftrightarrow> sublist m x \<or> sublist m y"
proof
  assume "sublist m (x @ c # y)"
  then consider "sublist m x" | "sublist m (c # y)"
    | m1 m2 where "m = m1 @ m2" "suffix m1 x" "prefix m2 (c # y)"
    unfolding sublist_append by blast
  then show "sublist m x \<or> sublist m y"
  proof cases
    case 1
    then show ?thesis ..
  next
    case 2
    then have "prefix m (c # y) \<or> sublist m y" by (simp add: sublist_Cons_right)
    moreover have "m = []" if "prefix m (c # y)"
      using that assms by (cases m) auto
    ultimately show ?thesis by auto
  next
    case 3
    have "m2 = []" using 3(1,3) assms by (cases m2) auto
    with 3 have "suffix m x" by simp
    then show ?thesis by (blast intro: suffix_imp_sublist)
  qed
next
  assume "sublist m x \<or> sublist m y"
  then show "sublist m (x @ c # y)"
    by (auto simp: sublist_append sublist_Cons_right)
qed

lemma closing_block_no_stop_phrase: "\<not> sublist stop_phrase CLOSING_BLOCK"
  by (simp add: stop_phrase_def CLOSING_BLOCK_def MANDATORY_CLOSING_LINE_def ustr_def newline_def
      sublist_code(3))

lemma stop_phrase_no_newline: "10 \<notin> set stop_phrase"
  by (simp add: stop_phrase_def ustr_def)

lemma no_stop_phrase_in_final:
  assumes "\<not> sublist stop_phrase body"
  shows "\<not> sublist stop_phrase (body @ (newline @ newline) @ CLOSING_BLOCK)"
proof -
  have "sublist stop_phrase (body @ 10 # (10 # CLOSING_BLOCK))
          \<longleftrightarrow> sublist stop_phrase body \<or> sublist stop_phrase (10 # CLOSING_BLOCK)"
    by (rule sublist_across) (rule stop_phrase_no_newline)
  moreover have "sublist stop_phrase ([] @ 10 # CLOSING_BLOCK)
          \<longleftrightarrow> sublist stop_phrase [] \<or> sublist stop_phrase CLOSING_BLOCK"
    by (rule sublist_across) (rule stop_phrase_no_newline)
  moreover have "\<not> sublist stop_phrase []" by (simp add: stop_phrase_def ustr_def)
  ultimately show ?thesis
    using assms closing_block_no_stop_phrase by (simp add: newline_def)
qed

lemma primary_cut_marked:
  assumes "raw = before @ stop_phrase @ rest" "\<forall>j<length before. \<not> occurs_at raw stop_phrase j"
  shows "primary_cut raw = strip before"
proof -
  have "\<forall>j<length before. \<not> prefix stop_phrase (drop j (before @ stop_phrase @ rest))"
    using assms by (auto simp: occurs_at_def)
  then have "split_first (before @ stop_phrase @ rest) stop_phrase = before"
    by (rule split_first_append)
  then show ?thesis using assms(1) by (simp add: primary_cut_def)
qed

lemma sanitize_no_stop_phrase:
  assumes "sublist stop_phrase raw"
  shows "\<not> sublist stop_phrase (sanitize raw)"
proof
  assume "sublist stop_phrase (sanitize raw)"
  also have "sublist (sanitize raw) (primary_cut raw)"
    unfolding sanitize_def
    using sublist_contact_cut sublist_secondary_cut sublist_order.order_trans by blast
  also have "primary_cut raw = strip (split_first raw stop_phrase)"
    using assms by (simp add: primary_cut_def)
  also have "sublist (strip (split_first raw stop_phrase)) (split_first raw stop_phrase)"
    by (rule sublist_strip)
  finally have "sublist stop_phrase (split_first raw stop_phrase)" .
  moreover have "stop_phrase \<noteq> []" by (simp add: stop_phrase_def ustr_def)
  ultimately show False using split_first_no_sep by blast
qed

text \<open>
  C3, amended. A text that contains the stop phrase splits at the first occurrence of
  the stop phrase into \<open>before\<close>, the stop phrase and \<open>rest\<close>. The body is what steps 2
  and 3 make of \<open>before\<close> trimmed (a piece of it, and all of it when neither step cuts),
  and the stop phrase occurs nowhere in the email returned.
\<close>

theorem stop_phrase_cut:
  assumes "sublist stop_phrase raw"
  shows "(\<exists>before rest. raw = before @ stop_phrase @ rest
            \<and> (\<forall>j<length before. \<not> occurs_at raw stop_phrase j))
       \<and> (\<forall>before rest. raw = before @ stop_phrase @ rest
              \<and> (\<forall>j<length before. \<not> occurs_at raw stop_phrase j)
            \<longrightarrow> sanitize raw = contact_cut (secondary_cut (strip before))
                \<and> sublist (sanitize raw) (strip before))
       \<and> post_process raw = sanitize raw @ (newline @ newline) @ CLOSING_BLOCK
       \<and> \<not> sublist stop_phrase (post_process raw)"
proof (intro conjI allI impI)
  show "\<exists>before rest. raw = before @ stop_phrase @ rest
          \<and> (\<forall>j<length before. \<not> occurs_at raw stop_phrase j)"
    using assms by (rule first_occurrence_exists)
next
  fix before rest
  assume h: "raw = before @ stop_phrase @ rest
             \<and> (\<forall>j<length before. \<not> occurs_at raw stop_phrase j)"
  then have "primary_cut raw = strip before" by (intro primary_cut_marked) auto
  then show body: "sanitize raw = contact_cut (secondary_cut (strip before))"
    by (simp add: sanitize_def)
  have "sublist (contact_cut (secondary_cut (strip before))) (strip before)"
    using sublist_contact_cut sublist_secondary_cut sublist_order.order_trans by blast
  with body show "sublist (sanitize raw) (strip before)" by simp
next
  show "post_process raw = sanitize raw @ (newline @ newline) @ CLOSING_BLOCK"
    by (simp add: post_process_def)
next
  from assms have "\<not> sublist stop_phrase (sanitize raw)" by (rule sanitize_no_stop_phrase)
  then show "\<not> sublist stop_phrase (post_process raw)"
    using no_stop_phrase_in_final [of "sanitize raw"] by (simp add: post_process_def)
qed

lemma first_occurrence:
  assumes "\<not> sublist sep (a @ butlast sep)"
  shows "\<forall>j<length a. \<not> occurs_at (a @ sep @ b) sep j"
proof (intro allI impI notI)
  fix j assume j: "j < length a" and o: "occurs_at (a @ sep @ b) sep j"
  from assms have ne: "sep \<noteq> []" by auto
  then have "a @ sep @ b = (a @ butlast sep) @ (last sep # b)" by simp
  moreover have "drop j ((a @ butlast sep) @ (last sep # b))
                   = drop j (a @ butlast sep) @ (last sep # b)"
    using j by (simp del: append_assoc)
  ultimately have "prefix sep (drop j (a @ butlast sep) @ (last sep # b))"
    using o by (simp only: occurs_at_def)
  moreover have "prefix (drop j (a @ butlast sep)) (drop j (a @ butlast sep) @ (last sep # b))"
    by simp
  moreover have "length sep \<le> length (drop j (a @ butlast sep))"
    using j ne by (cases sep rule: rev_cases) auto
  ultimately have "prefix sep (drop j (a @ butlast sep))"
    by (rule prefix_length_prefix)
  then have "sublist sep (a @ butlast sep)"
    using sublist_drop sublist_order.order_trans prefix_imp_sublist by blast
  with assms show False ..
qed

theorem stop_phrase_cut_witness:
  "sublist stop_phrase (ustr ''Hello team. ---END-OF-BODY--- Sincerely, X'')
   \<and> post_process (ustr ''Hello team. ---END-OF-BODY--- Sincerely, X'')
       = ustr ''Hello team.'' @ (newline @ newline) @ CLOSING_BLOCK
   \<and> \<not> sublist stop_phrase (post_process (ustr ''Hello team. ---END-OF-BODY--- Sincerely, X''))"
proof -
  let ?before = "ustr ''Hello team. ''" and ?rest = "ustr '' Sincerely, X''"
  let ?raw = "ustr ''Hello team. ---END-OF-BODY--- Sincerely, X''"
  have raw: "?raw = ?before @ stop_phrase @ ?rest"
    by (simp add: ustr_def stop_phrase_def)
  then have marked: "sublist stop_phrase ?raw" by simp
  have "\<not> sublist stop_phrase (?before @ butlast stop_phrase)"
    by (simp add: ustr_def stop_phrase_def sublist_code(3))
  then have "\<forall>j<length ?before. \<not> occurs_at (?before @ stop_phrase @ ?rest) stop_phrase j"
    by (rule first_occurrence)
  then have first: "\<forall>j<length ?before. \<not> occurs_at ?raw stop_phrase j"
    by (simp only: raw)
  have body: "contact_cut (secondary_cut (strip ?before)) = ustr ''Hello team.''"
    by (simp add: text_eval)
  from stop_phrase_cut [OF marked] raw first
  have final: "post_process ?raw = sanitize ?raw @ (newline @ newline) @ CLOSING_BLOCK"
    and cut: "sanitize ?raw = contact_cut (secondary_cut (strip ?before))"
    and clean: "\<not> sublist stop_phrase (post_process ?raw)"
    by blast+
  from final cut body
  have "post_process ?raw = ustr ''Hello team.'' @ (newline @ newline) @ CLOSING_BLOCK"
    by simp
  with marked clean show ?thesis by (intro conjI)
qed

text \<open>
  C3 as stated fails: the text before the stop phrase, trimmed, still ends with a
  sign-off, which step 2 removes.
\<close>

theorem stop_phrase_cut_counterexample:
  "sublist stop_phrase (ustr ''Hi'' @ newline @ newline @ ustr ''Best regards,'' @ newline @ ustr ''Bob---END-OF-BODY---'')
   \<and> strip (split_first (ustr ''Hi'' @ newline @ newline @ ustr ''Best regards,'' @ newline @ ustr ''Bob---END-OF-BODY---'') stop_phrase)
       = ustr ''Hi'' @ newline @ newline @ ustr ''Best regards,'' @ newline @ ustr ''Bob''
   \<and> sanitize (ustr ''Hi'' @ newline @ newline @ ustr ''Best regards,'' @ newline @ ustr ''Bob---END-OF-BODY---'')
       = ustr ''Hi''"
  by (simp add: text_eval)

section \<open>The secondary cut\<close>

lemma ci_occurs_at_le: "ci_occurs_at s p i \<Longrightarrow> i \<le> length s"
  by (simp add: ci_occurs_at_def)

lemma closing_step_skip:
  assumes "dotted_I \<notin> set t" "dotted_I \<notin> set p"
    and far: "\<forall>i. ci_occurs_at t p i \<longrightarrow> 200 \<le> length t - i"
  shows "closing_loop (p # cs) t = closing_loop cs t"
proof (rule rfind_cases [of "lower t" "lower p"])
  assume "rfind (lower t) (lower p) = - 1"
  then show ?thesis by simp
next
  fix i
  assume r: "rfind (lower t) (lower p) = int i" and "occurs_at (lower t) (lower p) i"
  with assms have occ: "ci_occurs_at t p i" by (simp add: occurs_at_lower)
  with far have "200 \<le> length t - i" by blast
  moreover from occ have "i \<le> length t" by (rule ci_occurs_at_le)
  ultimately have "\<not> int (length t) - int i < 200" by linarith
  with r show ?thesis by simp
qed

lemma closing_step_cut:
  assumes "dotted_I \<notin> set t" "dotted_I \<notin> set p"
    and occ: "ci_occurs_at t p i" and last: "\<forall>j>i. \<not> ci_occurs_at t p j"
    and near: "length t - i < 200"
  shows "closing_loop (p # cs) t = strip (take i t)"
proof -
  from assms have "rfind (lower t) (lower p) = int i"
    by (simp add: rfind_found occurs_at_lower)
  moreover from occ have "i \<le> length t" by (rule ci_occurs_at_le)
  with near have "int (length t) - int i < 200" by linarith
  ultimately show ?thesis by simp
qed

lemma closing_loop_no_cut:
  assumes "dotted_I \<notin> set t"
    and "\<forall>p\<in>set cs. dotted_I \<notin> set p \<and> (\<forall>i. ci_occurs_at t p i \<longrightarrow> 200 \<le> length t - i)"
  shows "closing_loop cs t = t"
  using assms(2)
proof (induction cs)
  case Nil
  then show ?case by simp
next
  case (Cons p cs)
  then have "closing_loop (p # cs) t = closing_loop cs t"
    using assms(1) by (intro closing_step_skip) auto
  with Cons show ?case by simp
qed

lemma closing_loop_cut:
  assumes "dotted_I \<notin> set t"
    and "\<forall>p\<in>set pre. dotted_I \<notin> set p \<and> (\<forall>i. ci_occurs_at t p i \<longrightarrow> 200 \<le> length t - i)"
    and "dotted_I \<notin> set p" "ci_occurs_at t p i" "\<forall>j>i. \<not> ci_occurs_at t p j" "length t - i < 200"
  shows "closing_loop (pre @ p # post) t = strip (take i t)"
  using assms(2)
proof (induction pre)
  case Nil
  show ?case unfolding append_Nil by (rule closing_step_cut) (use assms in auto)
next
  case (Cons q pre)
  then have "closing_loop (q # (pre @ p # post)) t = closing_loop (pre @ p # post) t"
    using assms(1) by (intro closing_step_skip) auto
  with Cons show ?case by simp
qed

lemma common_closings_plain: "\<forall>p\<in>set common_closings. dotted_I \<notin> set p"
  by (simp add: common_closings_def ustr_def dotted_I_def)

text \<open>
  For a text without U+0130 the loop does what C6 says: the first phrase, in the order
  of the list, whose last occurrence (case ignored) starts less than 200 code points
  before the end decides; the text is cut before that occurrence and trimmed, and no
  later phrase is tried. With no such phrase the text is left as it is, untrimmed.
\<close>

lemma secondary_cut_plain_text:
  assumes "dotted_I \<notin> set t"
  shows "(k < length common_closings
            \<and> ci_occurs_at t (common_closings ! k) i
            \<and> (\<forall>j>i. \<not> ci_occurs_at t (common_closings ! k) j)
            \<and> length t - i < 200
            \<and> (\<forall>k'<k. \<forall>i'. ci_occurs_at t (common_closings ! k') i' \<longrightarrow> 200 \<le> length t - i')
          \<longrightarrow> secondary_cut t = strip (take i t))
       \<and> ((\<forall>p\<in>set common_closings. \<forall>i. ci_occurs_at t p i \<longrightarrow> 200 \<le> length t - i)
          \<longrightarrow> secondary_cut t = t)"
proof (intro conjI impI)
  assume h: "k < length common_closings
            \<and> ci_occurs_at t (common_closings ! k) i
            \<and> (\<forall>j>i. \<not> ci_occurs_at t (common_closings ! k) j)
            \<and> length t - i < 200
            \<and> (\<forall>k'<k. \<forall>i'. ci_occurs_at t (common_closings ! k') i' \<longrightarrow> 200 \<le> length t - i')"
  let ?pre = "take k common_closings" and ?p = "common_closings ! k"
  let ?post = "drop (Suc k) common_closings"
  from h have split: "common_closings = ?pre @ ?p # ?post"
    by (simp add: id_take_nth_drop)
  have pre: "\<forall>q\<in>set ?pre. dotted_I \<notin> set q \<and> (\<forall>i. ci_occurs_at t q i \<longrightarrow> 200 \<le> length t - i)"
  proof
    fix q assume "q \<in> set ?pre"
    then obtain k' where "k' < k" "q = common_closings ! k'"
      using h by (auto simp: in_set_conv_nth)
    moreover have "q \<in> set common_closings" using \<open>q \<in> set ?pre\<close> by (rule in_set_takeD)
    ultimately show "dotted_I \<notin> set q \<and> (\<forall>i. ci_occurs_at t q i \<longrightarrow> 200 \<le> length t - i)"
      using h common_closings_plain by blast
  qed
  have "dotted_I \<notin> set ?p" using h common_closings_plain by simp
  with assms pre h have "closing_loop (?pre @ ?p # ?post) t = strip (take i t)"
    by (intro closing_loop_cut) auto
  with split show "secondary_cut t = strip (take i t)" by (simp add: secondary_cut_def)
next
  assume "\<forall>p\<in>set common_closings. \<forall>i. ci_occurs_at t p i \<longrightarrow> 200 \<le> length t - i"
  with assms common_closings_plain show "secondary_cut t = t"
    unfolding secondary_cut_def by (intro closing_loop_no_cut) auto
qed

lemma sanitize_signed_example:
  "sanitize (ustr ''Dear team.'' @ newline @ newline @ ustr ''Best regards,'' @ newline
             @ ustr ''Someone'' @ newline @ ustr ''email@x.com'') = ustr ''Dear team.''"
  by (simp add: text_eval)

text \<open>
  C6. The claim: the loop truncates the text to everything before the last match of the
  first phrase found near the end. The code looks the index up in the lowered text and
  cuts the text itself there. In \<open>U+0130 SPACE Best regards,\<close> the phrase starts at
  index 2 of the text and at index 3 of the lowered text: the loop keeps three code
  points, ending in the phrase's \<open>B\<close>, where the text before the match, trimmed, is
  U+0130 alone.
\<close>

theorem secondary_cut_dotted_I:
  "ci_occurs_at ([dotted_I, 32] @ ustr ''Best regards,'') (ustr ''Best regards,'') 2
   \<and> strip (take 2 ([dotted_I, 32] @ ustr ''Best regards,'')) = [dotted_I]
   \<and> rfind (lower ([dotted_I, 32] @ ustr ''Best regards,'')) (lower (ustr ''Best regards,'')) = 3
   \<and> secondary_cut ([dotted_I, 32] @ ustr ''Best regards,'') = [dotted_I, 32, 66]
   \<and> post_process ([dotted_I, 32] @ ustr ''Best regards,'')
       = [dotted_I, 32, 66] @ (newline @ newline) @ CLOSING_BLOCK"
  by (simp add: text_eval ci_occurs_at_def post_process_def)

section \<open>The contact block heuristic\<close>

lemma rfind_append:
  assumes "sep \<noteq> []" "\<not> sublist sep (tl sep @ b)"
  shows "rfind (a @ sep @ b) sep = int (length a)"
proof -
  have "occurs_at (a @ sep @ b) sep (length a)" by (rule occurs_at_append)
  moreover have "\<not> occurs_at (a @ sep @ b) sep j" if "length a < j" for j
  proof
    assume o: "occurs_at (a @ sep @ b) sep j"
    from that obtain m where j: "j = Suc (length a + m)" using less_iff_Suc_add by auto
    from assms(1) have "drop j (a @ sep @ b) = drop m (tl sep @ b)"
      unfolding j by (cases sep) auto
    with o have "prefix sep (drop m (tl sep @ b))" by (simp add: occurs_at_def)
    then have "sublist sep (tl sep @ b)"
      using sublist_drop sublist_order.order_trans prefix_imp_sublist by blast
    with assms(2) show False ..
  qed
  ultimately show ?thesis by (simp add: rfind_found)
qed

lemma rsplit1_append:
  assumes "sep \<noteq> []" "\<not> sublist sep (tl sep @ b)"
  shows "rsplit1 (a @ sep @ b) sep = [a, b]"
  using rfind_append [OF assms, of a] by (simp add: rsplit1_def)

lemma rsplit1_none: "\<not> sublist sep s \<Longrightarrow> rsplit1 s sep = [s]"
  by (simp add: rsplit1_def rfind_none)

text \<open>
  C7. The heuristic does something only when \<open>@\<close> is among the last 100 code points.
  Then the text is split at the last occurrence of two newlines; with no such occurrence
  there is no second part and the text stays. Otherwise the text is \<open>a\<close>, two newlines
  and \<open>b\<close> with no later occurrence of two newlines, and the result is \<open>a\<close> trimmed
  exactly when \<open>b\<close> contains \<open>@\<close> or \<open>+\<close>, and the text itself when it does not.
\<close>

theorem contact_block_heuristic:
  "(\<not> sublist (ustr ''@'') (drop (length t - 100) t) \<longrightarrow> contact_cut t = t)
   \<and> (sublist (ustr ''@'') (drop (length t - 100) t) \<and> \<not> sublist (newline @ newline) t
        \<longrightarrow> contact_cut t = t)
   \<and> (sublist (ustr ''@'') (drop (length t - 100) t)
        \<and> t = a @ (newline @ newline) @ b \<and> \<not> sublist (newline @ newline) (newline @ b)
        \<longrightarrow> contact_cut t
              = (if sublist (ustr ''@'') b \<or> sublist (ustr ''+'') b then strip a else t))
   \<and> (sublist (newline @ newline) t
        \<longrightarrow> (\<exists>a b. t = a @ (newline @ newline) @ b
                   \<and> \<not> sublist (newline @ newline) (newline @ b)))"
proof (intro conjI impI)
  assume "\<not> sublist (ustr ''@'') (drop (length t - 100) t)"
  then show "contact_cut t = t" by (simp add: contact_cut_def last_chars_def)
next
  assume "sublist (ustr ''@'') (drop (length t - 100) t) \<and> \<not> sublist (newline @ newline) t"
  then show "contact_cut t = t"
    by (simp add: contact_cut_def last_chars_def rsplit1_none)
next
  assume h: "sublist (ustr ''@'') (drop (length t - 100) t)
        \<and> t = a @ (newline @ newline) @ b \<and> \<not> sublist (newline @ newline) (newline @ b)"
  then have parts: "rsplit1 t (newline @ newline) = [a, b]"
    using rsplit1_append [of "newline @ newline" b a] by (simp add: newline_def)
  from h have "sublist (ustr ''@'') (last_chars 100 t)" unfolding last_chars_def by blast
  with parts show "contact_cut t
              = (if sublist (ustr ''@'') b \<or> sublist (ustr ''+'') b then strip a else t)"
    by (simp add: contact_cut_def)
next
  assume "sublist (newline @ newline) t"
  then show "\<exists>a b. t = a @ (newline @ newline) @ b
               \<and> \<not> sublist (newline @ newline) (newline @ b)"
    using last_occurrence_exists [of "newline @ newline" t] by (simp add: newline_def)
qed

theorem contact_block_heuristic_witness:
  "contact_cut (ustr ''Thanks. '' @ newline @ newline @ ustr ''bob@x.com'') = ustr ''Thanks.''
   \<and> contact_cut (ustr ''Thanks. '' @ newline @ newline @ ustr ''See x.com'')
       = ustr ''Thanks. '' @ newline @ newline @ ustr ''See x.com''
   \<and> contact_cut (ustr ''mail bob@x.com'') = ustr ''mail bob@x.com''"
proof (intro conjI)
  let ?a = "ustr ''Thanks. ''" and ?b = "ustr ''bob@x.com''"
  let ?t = "?a @ newline @ newline @ ?b"
  have "sublist (ustr ''@'') (drop (length ?t - 100) ?t)
        \<and> ?t = ?a @ (newline @ newline) @ ?b \<and> \<not> sublist (newline @ newline) (newline @ ?b)"
    by (simp add: ustr_def newline_def sublist_code(3))
  with contact_block_heuristic [of ?t ?a ?b]
  have "contact_cut ?t
          = (if sublist (ustr ''@'') ?b \<or> sublist (ustr ''+'') ?b then strip ?a else ?t)"
    by blast
  moreover have "sublist (ustr ''@'') ?b" by (simp add: ustr_def sublist_code(3))
  moreover have "strip ?a = ustr ''Thanks.''" by (simp add: text_eval)
  ultimately show "contact_cut ?t = ustr ''Thanks.''"
    by (simp only: simp_thms if_True)
next
  let ?t = "ustr ''Thanks. '' @ newline @ newline @ ustr ''See x.com''"
  have "\<not> sublist (ustr ''@'') (drop (length ?t - 100) ?t)"
    by (simp add: ustr_def newline_def sublist_code(3))
  then show "contact_cut ?t = ?t"
    using contact_block_heuristic [of ?t "[]" "[]"] by blast
next
  let ?t = "ustr ''mail bob@x.com''"
  have "sublist (ustr ''@'') (drop (length ?t - 100) ?t) \<and> \<not> sublist (newline @ newline) ?t"
    by (simp add: ustr_def newline_def sublist_code(3))
  then show "contact_cut ?t = ?t"
    using contact_block_heuristic [of ?t "[]" "[]"] by blast
qed

section \<open>A text that no step touches\<close>

lemma ci_occurs_at_sublist: "ci_occurs_at t p i \<Longrightarrow> sublist (lower p) (lower t)"
proof -
  assume "ci_occurs_at t p i"
  then have "lower (take (length p) (drop i t)) = lower p" by (simp add: ci_occurs_at_def)
  moreover have "t = take i t @ take (length p) (drop i t) @ drop (length p) (drop i t)"
    by (metis append_take_drop_id)
  then have "lower t = lower (take i t) @ lower (take (length p) (drop i t))
                         @ lower (drop (length p) (drop i t))"
    by (metis lower_append)
  ultimately show ?thesis by (metis sublist_appendI)
qed

text \<open>
  C4, amended. A text without the stop phrase, without U+0130, with no sign-off phrase
  (case ignored) starting within its last 200 code points and no \<open>@\<close> among its last 100
  is the body as it stands: it is not trimmed. The separator and the closing block
  follow it.
\<close>

theorem untouched_text_kept:
  assumes "\<not> sublist stop_phrase raw"
    and "dotted_I \<notin> set raw"
    and "\<forall>phrase\<in>set common_closings. \<forall>i. ci_occurs_at raw phrase i \<longrightarrow> 200 \<le> length raw - i"
    and "\<not> sublist (ustr ''@'') (drop (length raw - 100) raw)"
  shows "sanitize raw = raw \<and> post_process raw = raw @ (newline @ newline) @ CLOSING_BLOCK"
proof -
  have "primary_cut raw = raw" using assms(1) by (simp add: primary_cut_def)
  moreover have "secondary_cut raw = raw"
    unfolding secondary_cut_def
    using assms(2,3) common_closings_plain by (intro closing_loop_no_cut) auto
  moreover have "contact_cut raw = raw"
    using assms(4) by (simp add: contact_cut_def last_chars_def)
  ultimately show ?thesis by (simp add: sanitize_def post_process_def)
qed

text \<open>
  C4 as stated fails: nothing trims a text that no step cuts, so a trailing space stays.
\<close>

theorem untouched_text_kept_counterexample:
  "\<not> sublist stop_phrase (ustr ''Hello team. '')
   \<and> \<not> sublist (lower (common_closings ! 0)) (lower (ustr ''Hello team. ''))
   \<and> \<not> sublist (lower (common_closings ! 1)) (lower (ustr ''Hello team. ''))
   \<and> \<not> sublist (lower (common_closings ! 2)) (lower (ustr ''Hello team. ''))
   \<and> \<not> sublist (lower (common_closings ! 3)) (lower (ustr ''Hello team. ''))
   \<and> \<not> sublist (ustr ''@'') (ustr ''Hello team. '')
   \<and> strip (ustr ''Hello team. '') = ustr ''Hello team.''
   \<and> sanitize (ustr ''Hello team. '') = ustr ''Hello team. ''
   \<and> sanitize (ustr ''Hello team. '') \<noteq> strip (ustr ''Hello team. '')"
  by (simp add: text_eval)

theorem untouched_text_kept_witness:
  "sanitize (ustr ''Hello team. '') = ustr ''Hello team. ''
   \<and> post_process (ustr ''Hello team. '') = ustr ''Hello team. '' @ (newline @ newline) @ CLOSING_BLOCK"
proof -
  let ?raw = "ustr ''Hello team. ''"
  have 1: "\<not> sublist stop_phrase ?raw" by (simp add: text_eval)
  have 2: "dotted_I \<notin> set ?raw" by (simp add: ustr_def dotted_I_def)
  have "\<forall>phrase\<in>set common_closings. \<not> sublist (lower phrase) (lower ?raw)"
    by (simp add: text_eval)
  then have 3: "\<forall>phrase\<in>set common_closings. \<forall>i. ci_occurs_at ?raw phrase i \<longrightarrow> 200 \<le> length ?raw - i"
    using ci_occurs_at_sublist by blast
  have 4: "\<not> sublist (ustr ''@'') (drop (length ?raw - 100) ?raw)" by (simp add: text_eval)
  from untouched_text_kept [OF 1 2 3 4] show ?thesis .
qed

end
